theory Spec2Isabelle
  imports
    Complex_Main
    "HOL-Library.Multiset"
    "HOL-Library.Char_ord"
    "HOL-Library.List_Lexorder"
    "HOL-Library.Product_Lexorder"
begin

section \<open>JavaScript primitives shared by the modules\<close>

text \<open>
  A string of the program is a sequence of UTF-16 code units. The model is \<^typ>\<open>string\<close>,
  the code units below 256; numbers that hold counts and times are integers, and the
  other numbers (ratios, scores) are exact rationals, so a product, a quotient or a
  rounding is the exact one and not the nearest double.
\<close>

subsection \<open>Character classes and case\<close>

text \<open>\<^verbatim>\<open>\w\<close> is \<^verbatim>\<open>[A-Za-z0-9_]\<close>.\<close>

definition isWordChar :: "char \<Rightarrow> bool" where
  "isWordChar c =
     (let n = (of_char c :: nat) in
      (48 \<le> n \<and> n \<le> 57) \<or> (65 \<le> n \<and> n \<le> 90) \<or> n = 95 \<or> (97 \<le> n \<and> n \<le> 122))"

text \<open>
  \<^verbatim>\<open>\s\<close>, which is also what \<^verbatim>\<open>trim\<close> removes: tab, line feed, vertical tab, form feed,
  carriage return, space and the no-break space.
\<close>

definition isSpace :: "char \<Rightarrow> bool" where
  "isSpace c = (let n = (of_char c :: nat) in (9 \<le> n \<and> n \<le> 13) \<or> n = 32 \<or> n = 160)"

definition isTerminator :: "char \<Rightarrow> bool" where
  "isTerminator c = (c = CHR ''.'' \<or> c = CHR ''!'' \<or> c = CHR ''?'')"

definition toLowerChar :: "char \<Rightarrow> char" where
  "toLowerChar c =
     (let n = (of_char c :: nat) in
      if (65 \<le> n \<and> n \<le> 90) \<or> (192 \<le> n \<and> n \<le> 222 \<and> n \<noteq> 215)
      then char_of (n + 32) else c)"

definition toLowerCase :: "string \<Rightarrow> string" where
  "toLowerCase s = map toLowerChar s"

text \<open>
  The \<^verbatim>\<open>Canonicalize\<close> of a regular expression with the flag \<^verbatim>\<open>i\<close>: the upper-case
  code unit. Two code units match when their canonical forms are equal.
\<close>

definition canonicalize :: "char \<Rightarrow> char" where
  "canonicalize c =
     (let n = (of_char c :: nat) in
      if (97 \<le> n \<and> n \<le> 122) \<or> (224 \<le> n \<and> n \<le> 254 \<and> n \<noteq> 247)
      then char_of (n - 32) else c)"

definition sameChar :: "bool \<Rightarrow> char \<Rightarrow> char \<Rightarrow> bool" where
  "sameChar ignoreCase p c = (if ignoreCase then canonicalize p = canonicalize c else p = c)"

subsection \<open>Arrays and numbers\<close>

text \<open>
  \<^verbatim>\<open>Array.prototype.slice(0, n)\<close> for an integer \<open>n\<close>: a negative \<open>n\<close> counts from the
  end of the array (and stops at 0), a non-negative one is capped by the length.
\<close>

definition slice0 :: "int \<Rightarrow> 'a list \<Rightarrow> 'a list" where
  "slice0 n xs =
     (if n < 0 then take (nat (int (length xs) + n)) xs else take (nat n) xs)"

text \<open>\<^verbatim>\<open>Array.prototype.join(sep)\<close>.\<close>

fun joinWith :: "string \<Rightarrow> string list \<Rightarrow> string" where
  "joinWith sep [] = []"
| "joinWith sep [x] = x"
| "joinWith sep (x # y # ys) = x @ sep @ joinWith sep (y # ys)"

text \<open>\<^verbatim>\<open>Math.round\<close>: the nearest integer, a half going up.\<close>

definition mathRound :: "rat \<Rightarrow> int" where
  "mathRound x = \<lfloor>x + 1 / 2\<rfloor>"

subsection \<open>Splitting and matching\<close>

text \<open>
  \<^verbatim>\<open>s.split(/\s+/)\<close>: the pieces between the maximal runs of white space. A run at the
  start or at the end of the string leaves an empty piece there, and the empty string
  gives one empty piece, so the result is never empty.
\<close>

fun splitWs :: "string \<Rightarrow> string list" where
  "splitWs [] = [[]]"
| "splitWs [c] = (if isSpace c then [[], []] else [[c]])"
| "splitWs (c # d # ds) =
     (if isSpace c
      then (if isSpace d then splitWs (d # ds) else [] # splitWs (d # ds))
      else (case splitWs (d # ds) of
              [] \<Rightarrow> [[c]]
            | p # ps \<Rightarrow> (c # p) # ps))"

text \<open>
  \<^verbatim>\<open>s.match(/[^.!?]+[.!?]+/g)\<close>: the successive matches, from left to right. A match
  starts at the first code unit that is no terminator, takes all of them up to the next
  terminator and then all the terminators that follow. Terminators at the start of the
  string belong to no match, and neither does a tail that has no terminator after it.
  The result \<open>[]\<close> stands for \<^verbatim>\<open>null\<close>.
\<close>

function sentenceMatches :: "string \<Rightarrow> string list" where
  "sentenceMatches s =
     (let start = dropWhile isTerminator s;
          body = takeWhile (\<lambda>c. \<not> isTerminator c) start;
          rest = dropWhile (\<lambda>c. \<not> isTerminator c) start;
          marks = takeWhile isTerminator rest
      in if body = [] \<or> marks = [] then []
         else (body @ marks) # sentenceMatches (dropWhile isTerminator rest))"
  by pat_completeness auto
termination
proof (relation "measure length", goal_cases)
  case 1
  show ?case by simp
next
  case (2 s start body rest marks)
  have shorter: "length (dropWhile P xs) < length xs" if "takeWhile P xs \<noteq> []"
    for P and xs :: string
    using that by (cases xs) (auto simp: le_imp_less_Suc length_dropWhile_le split: if_splits)
  have "length (dropWhile isTerminator rest) < length rest"
    using 2 by (intro shorter) simp
  moreover have "length rest \<le> length s"
    using 2 by (simp add: length_dropWhile_le le_trans [OF length_dropWhile_le])
  ultimately show ?case by simp
qed

declare sentenceMatches.simps [simp del]

text \<open>\<^verbatim>\<open>text.match(/[^.!?]+[.!?]+/g) || [text]\<close>.\<close>

definition sentences :: "string \<Rightarrow> string list" where
  "sentences text = (case sentenceMatches text of [] \<Rightarrow> [text] | m # ms \<Rightarrow> m # ms)"

subsection \<open>Replacing a phrase between word boundaries\<close>

text \<open>
  \<^verbatim>\<open>\b\<close> holds between two positions when exactly one of the code units next to it is a
  word character; outside the string there is none.
\<close>

definition charAt :: "string \<Rightarrow> nat \<Rightarrow> char option" where
  "charAt s i = (if i < length s then Some (s ! i) else None)"

definition isWordAt :: "char option \<Rightarrow> bool" where
  "isWordAt x = (case x of None \<Rightarrow> False | Some c \<Rightarrow> isWordChar c)"

definition wordBoundary :: "char option \<Rightarrow> char option \<Rightarrow> bool" where
  "wordBoundary left right = (isWordAt left \<noteq> isWordAt right)"

text \<open>
  The regular expression \<^verbatim>\<open>\bkey\b\<close>, for a key of letters, digits and spaces, matches
  at the start of \<open>text\<close>, where \<open>prev\<close> is the code unit before it.
\<close>

definition matchHere :: "bool \<Rightarrow> string \<Rightarrow> char option \<Rightarrow> string \<Rightarrow> bool" where
  "matchHere ignoreCase key prev text =
     (let n = length key in
      n \<le> length text \<and>
      wordBoundary prev (charAt text 0) \<and>
      list_all2 (sameChar ignoreCase) key (take n text) \<and>
      wordBoundary (if n = 0 then prev else charAt text (n - 1)) (charAt text n))"

text \<open>
  \<^verbatim>\<open>text.replace(new RegExp('\\b' + key + '\\b', 'g' or 'gi'), repl)\<close>, for a replacement
  without \<^verbatim>\<open>$\<close>: scan from the left; at a match write the replacement and go on after
  the match (an empty match moves one code unit on), elsewhere copy the code unit.
\<close>

function replaceWord :: "bool \<Rightarrow> string \<Rightarrow> string \<Rightarrow> char option \<Rightarrow> string \<Rightarrow> string" where
  "replaceWord ignoreCase key repl prev [] =
     (if matchHere ignoreCase key prev [] then repl else [])"
| "replaceWord ignoreCase key repl prev (c # cs) =
     (if matchHere ignoreCase key prev (c # cs)
      then (if key = []
            then repl @ c # replaceWord ignoreCase key repl (Some c) cs
            else repl @ replaceWord ignoreCase key repl
                          (charAt (c # cs) (length key - 1)) (drop (length key) (c # cs)))
      else c # replaceWord ignoreCase key repl (Some c) cs)"
  by pat_completeness auto
termination
  by (relation "measure (\<lambda>(i, k, r, p, s). length s)") auto

text \<open>\<^verbatim>\<open>text.replace(/\s{2,}/g, ' ')\<close>: every run of two or more white spaces becomes one space.\<close>

function collapseSpaces :: "string \<Rightarrow> string" where
  "collapseSpaces [] = []"
| "collapseSpaces [c] = [c]"
| "collapseSpaces (c # d # cs) =
     (if isSpace c \<and> isSpace d then CHR '' '' # collapseSpaces (dropWhile isSpace cs)
      else c # collapseSpaces (d # cs))"
  by pat_completeness auto
termination
  by (relation "measure length") (auto intro: le_imp_less_Suc le_SucI length_dropWhile_le)

definition trim :: "string \<Rightarrow> string" where
  "trim s = rev (dropWhile isSpace (rev (dropWhile isSpace s)))"


section \<open>workers/transformWorker.ts: the rule tables\<close>

text \<open>
  \<^verbatim>\<open>TONE_LEXICONS\<close>, tone name to the pairs of phrase and replacement, in the order of
  the object literals (the key written \<^verbatim>\<open>a lot\<close> is the phrase of two words).
\<close>

definition TONE_LEXICONS :: "(string \<times> (string \<times> string) list) list" where
  "TONE_LEXICONS =
     [(''formal'',
         [(''hi'', ''greetings''), (''hey'', ''hello''), (''yeah'', ''yes''), (''nope'', ''no''),
          (''gonna'', ''going to''), (''wanna'', ''want to''), (''kinda'', ''kind of''),
          (''a lot'', ''many''), (''really'', ''very''), (''pretty'', ''quite'')]),
      (''casual'',
         [(''greetings'', ''hi''), (''hello'', ''hey''), (''yes'', ''yeah''), (''no'', ''nope''),
          (''going to'', ''gonna''), (''want to'', ''wanna''), (''kind of'', ''kinda''),
          (''very'', ''really''), (''quite'', ''pretty'')]),
      (''professional'',
         [(''think'', ''believe''), (''get'', ''obtain''), (''make'', ''create''),
          (''help'', ''assist''), (''show'', ''demonstrate''), (''tell'', ''inform'')])]"

text \<open>\<^verbatim>\<open>STYLE_PATTERNS\<close>: the three style functions.\<close>

definition fillers :: "string list" where
  "fillers =
     [''actually'', ''basically'', ''literally'', ''essentially'', ''obviously'', ''clearly'']"

definition concise :: "string \<Rightarrow> string" where
  "concise text =
     trim (collapseSpaces
       (foldl (\<lambda>result filler. replaceWord True filler [] None result) text fillers))"



section \<open>workers/transformWorker.ts: the stages\<close>

text \<open>
  The stages return the new text and a rule name; the rule names take no part in the
  properties below and are left out. \<^verbatim>\<open>customLength\<close> is modelled for integer values.
\<close>

datatype lengthMode = Short | Medium | Long | Custom

text \<open>
  The target of \<^verbatim>\<open>applyLengthTransform\<close>. The products \<^verbatim>\<open>sentences.length * 0.3\<close> and
  \<^verbatim>\<open>* 0.6\<close> are taken exactly; \<^verbatim>\<open>customLength || sentences.length\<close> takes the length for
  an absent \<^verbatim>\<open>customLength\<close> and for 0.
\<close>

definition targetSentences :: "lengthMode \<Rightarrow> int option \<Rightarrow> nat \<Rightarrow> int" where
  "targetSentences mode customLength len =
     (case mode of
        Short \<Rightarrow> max 1 \<lceil>rat_of_nat len * (3 / 10)\<rceil>
      | Medium \<Rightarrow> max 1 \<lceil>rat_of_nat len * (6 / 10)\<rceil>
      | Long \<Rightarrow> int len
      | Custom \<Rightarrow>
          (case customLength of
             None \<Rightarrow> int len
           | Some k \<Rightarrow> if k = 0 then int len else k))"

definition applyLengthTransform :: "string \<Rightarrow> lengthMode \<Rightarrow> int option \<Rightarrow> string" where
  "applyLengthTransform text mode customLength =
     (let ss = sentences text
      in joinWith '' '' (slice0 (targetSentences mode customLength (length ss)) ss))"

text \<open>
  \<^verbatim>\<open>applyToneTransform\<close>: the entries of the lexicon are applied one after the other, each
  to the result of the one before. A name that is no key of the table leaves the text
  as it is (so do the inherited names \<^verbatim>\<open>constructor\<close> and \<^verbatim>\<open>__proto__\<close>, whose values
  have no entries).
\<close>

definition applyToneTransform :: "string \<Rightarrow> string \<Rightarrow> string" where
  "applyToneTransform text tone =
     (case map_of TONE_LEXICONS (toLowerCase tone) of
        None \<Rightarrow> text
      | Some lexicon \<Rightarrow>
          foldl (\<lambda>result (phrase, swap). replaceWord True phrase swap None result) text lexicon)"

datatype error = Cancelled | NotAFunction



section \<open>workers/transformWorker.ts: the requests\<close>

record settings =
  lengthSetting :: "lengthMode option"
  customLength :: "int option"
  tone :: "string option"
  style :: "string option"
  prompt :: "string option"





section \<open>The frequency object of the two workers\<close>

text \<open>
  Both workers count words in an ordinary object, \<^verbatim>\<open>freq[w] = (freq[w] || 0) + 1\<close>, and
  read it back with \<^verbatim>\<open>Object.entries\<close>. The object is modelled as the list of its own
  properties in the order of their creation.
\<close>

fun bump :: "string \<Rightarrow> (string \<times> nat) list \<Rightarrow> (string \<times> nat) list" where
  "bump w [] = [(w, 1)]"
| "bump w ((k, n) # kvs) = (if k = w then (k, n + 1) # kvs else (k, n) # bump w kvs)"

text \<open>
  The name \<^verbatim>\<open>__proto__\<close> is an accessor of every object: reading it gives an object,
  and assigning the string that results to it changes nothing, so this word never
  becomes a property.
\<close>

definition countWords :: "string list \<Rightarrow> (string \<times> nat) list" where
  "countWords ws = foldl (\<lambda>freq w. if w = ''__proto__'' then freq else bump w freq) [] ws"

text \<open>
  An array index is the decimal numeral, without a leading zero, of an integer below
  \<open>2\<^sup>3\<^sup>2 - 1\<close>. \<^verbatim>\<open>Object.entries\<close> lists the properties named by array indices first, by
  ascending value, and then the others in the order of their creation.
\<close>

definition isDigit :: "char \<Rightarrow> bool" where
  "isDigit c = (48 \<le> (of_char c :: nat) \<and> (of_char c :: nat) \<le> 57)"

definition digitsValue :: "string \<Rightarrow> int" where
  "digitsValue s = foldl (\<lambda>v c. 10 * v + (of_char c - 48)) 0 s"

definition isArrayIndex :: "string \<Rightarrow> bool" where
  "isArrayIndex s =
     (s \<noteq> [] \<and> list_all isDigit s \<and> (s = ''0'' \<or> hd s \<noteq> CHR ''0'') \<and>
      digitsValue s < 4294967295)"

definition ownEntries :: "(string \<times> nat) list \<Rightarrow> (string \<times> nat) list" where
  "ownEntries freq =
     sort_key (\<lambda>e. digitsValue (fst e)) (filter (\<lambda>e. isArrayIndex (fst e)) freq) @
     filter (\<lambda>e. \<not> isArrayIndex (fst e)) freq"

text \<open>
  \<^verbatim>\<open>Object.entries(freq).sort((a, b) => b[1] - a[1]).slice(0, k).map(([word]) => word)\<close>.
  The sort of an array is stable. For the word \<^verbatim>\<open>constructor\<close> the object answers with
  an inherited function, the count becomes a string, the comparison gives \<^verbatim>\<open>NaN\<close> and
  the language leaves the order of the result open: that case is \<open>None\<close>.
\<close>

definition topKeywords :: "string list \<Rightarrow> int \<Rightarrow> string list option" where
  "topKeywords ws k =
     (if ''constructor'' \<in> set ws then None
      else Some (map fst (slice0 k (sort_key (\<lambda>e. - int (snd e)) (ownEntries (countWords ws))))))"

text \<open>\<^verbatim>\<open>text.toLowerCase().replace(/[^\w\s]/g, '').split(/\s+/)\<close>.\<close>

definition tokenize :: "string \<Rightarrow> string list" where
  "tokenize text = splitWs (filter (\<lambda>c. isWordChar c \<or> isSpace c) (toLowerCase text))"

section \<open>workers/nlpWorker.ts\<close>

definition STOPWORDS :: "string list" where
  "STOPWORDS =
     [''the'', ''be'', ''to'', ''of'', ''and'', ''a'', ''in'', ''that'', ''have'', ''i'',
      ''it'', ''for'', ''not'', ''on'', ''with'', ''he'', ''as'', ''you'', ''do'', ''at'',
      ''this'', ''but'', ''his'', ''by'', ''from'', ''they'', ''we'', ''say'', ''her'', ''she'',
      ''or'', ''an'', ''will'', ''my'', ''one'', ''all'', ''would'', ''there'', ''their'', ''what'']"

text \<open>\<^verbatim>\<open>extractKeywords\<close>; \<^verbatim>\<open>maxKeywords\<close> is 10 when the caller passes none.\<close>

definition extractKeywords :: "string \<Rightarrow> int option \<Rightarrow> string list option" where
  "extractKeywords text maxKeywords =
     topKeywords
       (filter (\<lambda>word. length word > 3 \<and> word \<notin> set STOPWORDS) (tokenize text))
       (case maxKeywords of None \<Rightarrow> 10 | Some k \<Rightarrow> k)"

text \<open>\<^verbatim>\<open>extractiveSummarize\<close>; \<^verbatim>\<open>summaryLength\<close> is 2 when the caller passes none.\<close>

definition extractiveSummarize :: "string \<Rightarrow> int option \<Rightarrow> string" where
  "extractiveSummarize text summaryLength =
     (let ss = sentences text;
          n = (case summaryLength of None \<Rightarrow> 2 | Some k \<Rightarrow> k)
      in trim (joinWith '' '' (slice0 (min n (int (length ss))) ss)))"

text \<open>
  \<^verbatim>\<open>word.match(/[aeiouy]+/g)\<close> and its like: the maximal runs of the code units of a
  class, from left to right.
\<close>

fun runs :: "(char \<Rightarrow> bool) \<Rightarrow> string \<Rightarrow> string list" where
  "runs P [] = []"
| "runs P [c] = (if P c then [[c]] else [])"
| "runs P (c # d # ds) =
     (if P c
      then (if P d
            then (case runs P (d # ds) of [] \<Rightarrow> [[c]] | g # gs \<Rightarrow> (c # g) # gs)
            else [c] # runs P (d # ds))
      else runs P (d # ds))"

definition isVowel :: "char \<Rightarrow> bool" where
  "isVowel c = (c \<in> set ''aeiouy'')"

definition isLowerLetter :: "char \<Rightarrow> bool" where
  "isLowerLetter c = (97 \<le> (of_char c :: nat) \<and> (of_char c :: nat) \<le> 122)"

definition endsWith :: "string \<Rightarrow> string \<Rightarrow> bool" where
  "endsWith s suffix =
     (length suffix \<le> length s \<and> drop (length s - length suffix) s = suffix)"

definition countSyllables :: "string \<Rightarrow> int" where
  "countSyllables word0 =
     (let word = filter isLowerLetter (toLowerCase word0) in
      if length word \<le> 3 then 1
      else
        (let vowels = runs isVowel word;
             count0 = (if vowels = [] then 1 else int (length vowels));
             count1 = (if endsWith word ''e'' then count0 - 1 else count0);
             count2 = (if endsWith word ''le'' \<and> length word > 2 then count1 + 1 else count1)
         in max 1 count2))"

definition calculateReadabilityScore :: "string \<Rightarrow> int" where
  "calculateReadabilityScore text =
     (let ss = sentences text;
          ws = splitWs text;
          syllables = foldl (\<lambda>sum word. sum + countSyllables word) 0 ws
      in if length ss = 0 \<or> length ws = 0 then 0
         else
           (let avgWordsPerSentence = rat_of_nat (length ws) / rat_of_nat (length ss);
                avgSyllablesPerWord = rat_of_int syllables / rat_of_nat (length ws);
                score = 206835 / 1000 - 1015 / 1000 * avgWordsPerSentence
                          - 846 / 10 * avgSyllablesPerWord
            in max 0 (min 100 (mathRound score))))"

section \<open>workers/transformWorker.ts: the analysis request\<close>

record AnalyzeResult =
  keywordList :: "string list option"
  summary :: string
  score :: int

text \<open>
  \<^verbatim>\<open>performAnalyze\<close> of the transform worker has its own code for the three results: the
  words are the tokens longer than 3, with no list of stop words, and the score is ten
  times the number of these words per sentence, capped at 100.
\<close>

definition performAnalyze :: "bool \<Rightarrow> string \<Rightarrow> error + AnalyzeResult" where
  "performAnalyze aborted text =
     (if aborted then Inl Cancelled
      else
        (let ws = filter (\<lambda>w. length w > 3) (tokenize text);
             ss = sentences text;
             avgWordsPerSentence =
               (if length ss > 0 then rat_of_nat (length ws) / rat_of_nat (length ss) else 0)
         in Inr \<lparr>keywordList = topKeywords ws 10,
                 summary = trim (joinWith '' '' (slice0 2 ss)),
                 score = min 100 (mathRound (avgWordsPerSentence * 10))\<rparr>))"


section \<open>lib/idb/models.ts: the undo stack\<close>

text \<open>
  \<^verbatim>\<open>UndoAction\<close> and \<^verbatim>\<open>UndoStack\<close> are plain objects. The field \<^verbatim>\<open>data: unknown\<close> is a
  type parameter; \<^verbatim>\<open>timestamp\<close> is a number holding milliseconds, an integer.
\<close>

record 'd UndoAction =
  actionType :: string
  timestamp :: int
  data :: 'd

record 'd UndoStack =
  siteKey :: string
  actions :: "'d UndoAction list"

text \<open>
  \<^verbatim>\<open>UndoStackManager\<close> holds one field, \<^verbatim>\<open>maxActions\<close> (10 when the constructor gets no
  argument); it is the first argument of the methods below.
\<close>

definition defaultMaxActions :: int where
  "defaultMaxActions = 10"

definition pushAction :: "int \<Rightarrow> 'd UndoStack \<Rightarrow> 'd UndoAction \<Rightarrow> 'd UndoStack" where
  "pushAction maxActions stack action =
     stack\<lparr>actions := slice0 maxActions (action # actions stack)\<rparr>"

definition popAction :: "'d UndoStack \<Rightarrow> 'd UndoStack \<times> 'd UndoAction option" where
  "popAction stack =
     (case actions stack of
        [] \<Rightarrow> (stack, None)
      | action # rest \<Rightarrow> (stack\<lparr>actions := rest\<rparr>, Some action))"

definition clear :: "'d UndoStack \<Rightarrow> 'd UndoStack" where
  "clear stack = stack\<lparr>actions := []\<rparr>"

section \<open>lib/idb/models.ts: the cache store and its eviction\<close>

text \<open>
  The object store \<^verbatim>\<open>cacheLRU\<close> has the key path \<^verbatim>\<open>cacheKey\<close>, so it holds at most one
  record for a key, and an index on \<^verbatim>\<open>lastAccessedAt\<close>. It is modelled as the list of its
  records; \<open>storePut\<close> and \<open>storeDelete\<close> are the store's own \<^verbatim>\<open>put\<close> and \<^verbatim>\<open>delete\<close>.
  A cursor over the index visits the records by ascending \<^verbatim>\<open>lastAccessedAt\<close>, records of
  equal time by ascending primary key.
\<close>

record 'v CacheEntry =
  cacheKey :: string
  cvalue :: 'v
  lastAccessedAt :: int

type_synonym 'v cacheStore = "'v CacheEntry list"

definition storePut :: "'v CacheEntry \<Rightarrow> 'v cacheStore \<Rightarrow> 'v cacheStore" where
  "storePut e s = filter (\<lambda>x. cacheKey x \<noteq> cacheKey e) s @ [e]"

definition storeDelete :: "string \<Rightarrow> 'v cacheStore \<Rightarrow> 'v cacheStore" where
  "storeDelete k s = filter (\<lambda>x. cacheKey x \<noteq> k) s"

definition indexCursor :: "'v cacheStore \<Rightarrow> 'v CacheEntry list" where
  "indexCursor s = sort_key (\<lambda>e. (lastAccessedAt e, cacheKey e)) s"

definition hasKey :: "'v cacheStore \<Rightarrow> string \<Rightarrow> bool" where
  "hasKey s k = (k \<in> cacheKey ` set s)"

text \<open>
  \<^verbatim>\<open>LRUManager.evictOldest\<close>: collect the records through the index cursor; when there are
  more than \<^verbatim>\<open>maxSize\<close>, sort them by \<^verbatim>\<open>lastAccessedAt\<close> (the sort of an array is stable),
  and delete the first \<^verbatim>\<open>entries.length - maxSize\<close> of them from the store.
\<close>

definition defaultMaxSize :: int where
  "defaultMaxSize = 100"

definition evictOldest :: "int \<Rightarrow> 'v cacheStore \<Rightarrow> 'v cacheStore" where
  "evictOldest maxSize s =
     (let entries = indexCursor s in
      if int (length entries) > maxSize
      then
        (let toDelete = slice0 (int (length entries) - maxSize) (sort_key lastAccessedAt entries)
         in foldl (\<lambda>st entry. storeDelete (cacheKey entry) st) s toDelete)
      else s)"



section \<open>Notions used to state and prove the properties\<close>

subsection \<open>Sentences\<close>

text \<open>A match of the sentence pattern: some code units that are no terminators, then some terminators.\<close>

definition wellFormed :: "string \<Rightarrow> bool" where
  "wellFormed m =
     (\<exists>b t. m = b @ t \<and> b \<noteq> [] \<and> (\<forall>c \<in> set b. \<not> isTerminator c) \<and>
            t \<noteq> [] \<and> (\<forall>c \<in> set t. isTerminator c))"

subsection \<open>Words of a text\<close>

text \<open>A key made of word characters only, and the comparison of a key with a piece of text under the flag \<^verbatim>\<open>i\<close>.\<close>

definition plainWord :: "string \<Rightarrow> bool" where
  "plainWord f = (f \<noteq> [] \<and> (\<forall>c \<in> set f. isWordChar c))"

definition ciEq :: "string \<Rightarrow> string \<Rightarrow> bool" where
  "ciEq f w = list_all2 (sameChar True) f w"

definition startsNonWord :: "string \<Rightarrow> bool" where
  "startsNonWord s = (case s of [] \<Rightarrow> True | c # _ \<Rightarrow> \<not> isWordChar c)"

text \<open>The maximal runs of word characters of a text, from left to right.\<close>

fun wordRuns :: "string \<Rightarrow> string list" where
  "wordRuns [] = []"
| "wordRuns (c # cs) =
     (if isWordChar c
      then (if startsNonWord cs then [c] # wordRuns cs
            else (case wordRuns cs of [] \<Rightarrow> [[c]] | w # ws \<Rightarrow> (c # w) # ws))
      else wordRuns cs)"

text \<open>No two white spaces next to each other; no white space at the start.\<close>

fun noSpaceRun :: "string \<Rightarrow> bool" where
  "noSpaceRun [] = True"
| "noSpaceRun [c] = True"
| "noSpaceRun (c # d # cs) = (\<not> (isSpace c \<and> isSpace d) \<and> noSpaceRun (d # cs))"

definition startsNonSpace :: "string \<Rightarrow> bool" where
  "startsNonSpace s = (case s of [] \<Rightarrow> True | c # _ \<Rightarrow> \<not> isSpace c)"

subsection \<open>Whole-word occurrences\<close>

text \<open>
  The key occurs at index \<open>i\<close> of the text as a whole word, in any capitalisation: the
  code units from \<open>i\<close> on are those of the key up to case, and there is no word character
  next to them on either side. \<open>scanFrom\<close> is what the replacement writes for the part
  of the text from index \<open>i\<close> on.
\<close>

definition charBefore :: "string \<Rightarrow> nat \<Rightarrow> char option" where
  "charBefore text i = (if i = 0 then None else charAt text (i - 1))"

definition wholeWordAt :: "string \<Rightarrow> string \<Rightarrow> nat \<Rightarrow> bool" where
  "wholeWordAt key text i =
     (i + length key \<le> length text \<and>
      map canonicalize (take (length key) (drop i text)) = map canonicalize key \<and>
      \<not> isWordAt (charBefore text i) \<and>
      \<not> isWordAt (charAt text (i + length key)))"

definition scanFrom :: "string \<Rightarrow> string \<Rightarrow> string \<Rightarrow> nat \<Rightarrow> string" where
  "scanFrom key repl text i = replaceWord True key repl (charBefore text i) (drop i text)"

definition wordEnded :: "string \<Rightarrow> bool" where
  "wordEnded key = (key \<noteq> [] \<and> isWordChar (hd key) \<and> isWordChar (last key))"

subsection \<open>The change ratio in the words of the specification\<close>




subsection \<open>The readability score in the words of the specification\<close>








subsection \<open>The keywords in the words of the specification\<close>








section \<open>Properties of the undo stack\<close>

lemma slice0_nat: "slice0 (int n) xs = take n xs"
  by (simp add: slice0_def)

lemma actions_pushAction:
  "actions (pushAction (int n) s a) = take n (a # actions s)"
  by (simp add: pushAction_def slice0_nat)

lemma actions_push_all:
  "length (actions s) \<le> n \<Longrightarrow>
   actions (foldl (pushAction (int n)) s as) = take n (rev as @ actions s)"
proof (induction as arbitrary: s)
  case Nil
  then show ?case by simp
next
  case (Cons a as)
  have len: "length (actions (pushAction (int n) s a)) \<le> n"
    by (simp add: actions_pushAction)
  have "actions (foldl (pushAction (int n)) s (a # as)) =
          take n (rev as @ take n (a # actions s))"
    using Cons.IH [OF len] by (simp add: actions_pushAction)
  also have "\<dots> = take n (rev as @ a # actions s)"
    by (simp add: min_def)
  finally show ?case by simp
qed

text \<open>
  C9. With a capacity \<open>N\<close> (a natural number, 10 by default), \<open>pushAction\<close> puts the new
  action in front and keeps the first \<open>N\<close> entries, so the oldest ones, at the tail, are
  dropped and a stack of at most \<open>N\<close> actions stays one; the scope key is kept. \<open>N + 5\<close>
  pushes onto an empty stack leave exactly the \<open>N\<close> newest actions, newest first, and none
  of the five oldest when the pushed actions are pairwise different. \<open>popAction\<close> on an
  empty stack returns no action and the stack as it was.
\<close>

theorem C9_bounded_history:
  fixes s :: "'d UndoStack" and N :: nat
  shows "defaultMaxActions = 10 \<and>
    (length (actions s) \<le> N \<longrightarrow>
       actions (pushAction (int N) s a) = take N (a # actions s) \<and>
       length (actions (pushAction (int N) s a)) \<le> N \<and>
       siteKey (pushAction (int N) s a) = siteKey s) \<and>
    (actions s = [] \<and> length as = N + 5 \<longrightarrow>
       actions (foldl (pushAction (int N)) s as) = rev (drop 5 as) \<and>
       length (actions (foldl (pushAction (int N)) s as)) = N \<and>
       (distinct as \<longrightarrow>
          set (take 5 as) \<inter> set (actions (foldl (pushAction (int N)) s as)) = {})) \<and>
    (actions s = [] \<longrightarrow> popAction s = (s, None))"
proof -
  have default: "defaultMaxActions = 10"
    by (simp add: defaultMaxActions_def)
  have push: "actions (pushAction (int N) s a) = take N (a # actions s) \<and>
       length (actions (pushAction (int N) s a)) \<le> N \<and>
       siteKey (pushAction (int N) s a) = siteKey s"
    by (simp add: actions_pushAction) (simp add: pushAction_def)
  have pop: "popAction s = (s, None)" if "actions s = []"
    using that by (simp add: popAction_def)
  have many: "actions (foldl (pushAction (int N)) s as) = rev (drop 5 as) \<and>
        length (actions (foldl (pushAction (int N)) s as)) = N \<and>
        (distinct as \<longrightarrow>
           set (take 5 as) \<inter> set (actions (foldl (pushAction (int N)) s as)) = {})"
    if empty: "actions s = []" and len: "length as = N + 5"
  proof -
    have "actions (foldl (pushAction (int N)) s as) = take N (rev as)"
      using actions_push_all [of s N as] empty by simp
    also have "\<dots> = rev (drop 5 as)"
      using len by (simp add: take_rev)
    finally have eq: "actions (foldl (pushAction (int N)) s as) = rev (drop 5 as)" .
    have dis: "set (take 5 as) \<inter> set (drop 5 as) = {}" if "distinct as"
      using that distinct_append [of "take 5 as" "drop 5 as"] by simp
    show ?thesis
      using eq len dis by simp
  qed
  show ?thesis
    using default push pop many by blast
qed

theorem C9_bounded_history_witness:
  "length (actions \<lparr>siteKey = ''a.org'', actions = ([] :: nat UndoAction list)\<rparr>) \<le> 2 \<and>
   actions \<lparr>siteKey = ''a.org'', actions = ([] :: nat UndoAction list)\<rparr> = [] \<and>
   length [\<lparr>actionType = ''t'', timestamp = 1, data = (1::nat)\<rparr>,
           \<lparr>actionType = ''t'', timestamp = 2, data = 2\<rparr>,
           \<lparr>actionType = ''t'', timestamp = 3, data = 3\<rparr>,
           \<lparr>actionType = ''t'', timestamp = 4, data = 4\<rparr>,
           \<lparr>actionType = ''t'', timestamp = 5, data = 5\<rparr>,
           \<lparr>actionType = ''t'', timestamp = 6, data = 6\<rparr>,
           \<lparr>actionType = ''t'', timestamp = 7, data = 7\<rparr>] = 2 + 5 \<and>
   distinct [\<lparr>actionType = ''t'', timestamp = 1, data = (1::nat)\<rparr>,
           \<lparr>actionType = ''t'', timestamp = 2, data = 2\<rparr>,
           \<lparr>actionType = ''t'', timestamp = 3, data = 3\<rparr>,
           \<lparr>actionType = ''t'', timestamp = 4, data = 4\<rparr>,
           \<lparr>actionType = ''t'', timestamp = 5, data = 5\<rparr>,
           \<lparr>actionType = ''t'', timestamp = 6, data = 6\<rparr>,
           \<lparr>actionType = ''t'', timestamp = 7, data = 7\<rparr>] \<and>
   actions (pushAction (int 2) \<lparr>siteKey = ''a.org'', actions = []\<rparr>
      \<lparr>actionType = ''t'', timestamp = 1, data = (1::nat)\<rparr>)
     = [\<lparr>actionType = ''t'', timestamp = 1, data = 1\<rparr>] \<and>
   actions (foldl (pushAction (int 2))
      \<lparr>siteKey = ''a.org'', actions = ([] :: nat UndoAction list)\<rparr>
      [\<lparr>actionType = ''t'', timestamp = 1, data = (1::nat)\<rparr>,
       \<lparr>actionType = ''t'', timestamp = 2, data = 2\<rparr>,
       \<lparr>actionType = ''t'', timestamp = 3, data = 3\<rparr>,
       \<lparr>actionType = ''t'', timestamp = 4, data = 4\<rparr>,
       \<lparr>actionType = ''t'', timestamp = 5, data = 5\<rparr>,
       \<lparr>actionType = ''t'', timestamp = 6, data = 6\<rparr>,
       \<lparr>actionType = ''t'', timestamp = 7, data = 7\<rparr>])
     = [\<lparr>actionType = ''t'', timestamp = 7, data = 7\<rparr>,
        \<lparr>actionType = ''t'', timestamp = 6, data = 6\<rparr>] \<and>
   popAction \<lparr>siteKey = ''a.org'', actions = ([] :: nat UndoAction list)\<rparr>
     = (\<lparr>siteKey = ''a.org'', actions = []\<rparr>, None)"
  using C9_bounded_history [of "\<lparr>siteKey = ''a.org'', actions = ([] :: nat UndoAction list)\<rparr>" 2
      "\<lparr>actionType = ''t'', timestamp = 1, data = (1::nat)\<rparr>"
      "[\<lparr>actionType = ''t'', timestamp = 1, data = (1::nat)\<rparr>,
       \<lparr>actionType = ''t'', timestamp = 2, data = 2\<rparr>,
       \<lparr>actionType = ''t'', timestamp = 3, data = 3\<rparr>,
       \<lparr>actionType = ''t'', timestamp = 4, data = 4\<rparr>,
       \<lparr>actionType = ''t'', timestamp = 5, data = 5\<rparr>,
       \<lparr>actionType = ''t'', timestamp = 6, data = 6\<rparr>,
       \<lparr>actionType = ''t'', timestamp = 7, data = 7\<rparr>]"]
  by simp

text \<open>
  C10. On a stack with fewer than \<open>N\<close> actions, a push followed by a pop gives back the
  pushed action and the stack as it was: the same actions and the same scope key.
\<close>

theorem C10_push_pop:
  fixes s :: "'d UndoStack" and N :: nat
  assumes "length (actions s) < N"
  shows "popAction (pushAction (int N) s a) = (s, Some a)"
proof -
  have "actions (pushAction (int N) s a) = a # actions s"
    using assms by (simp add: actions_pushAction)
  then show ?thesis
    by (simp add: popAction_def pushAction_def)
qed

theorem C10_push_pop_witness:
  "length (actions \<lparr>siteKey = ''a.org'',
       actions = [\<lparr>actionType = ''t'', timestamp = 1, data = (1::nat)\<rparr>]\<rparr>) < 10 \<and>
   popAction (pushAction (int 10)
     \<lparr>siteKey = ''a.org'', actions = [\<lparr>actionType = ''t'', timestamp = 1, data = (1::nat)\<rparr>]\<rparr>
     \<lparr>actionType = ''u'', timestamp = 2, data = 2\<rparr>)
   = (\<lparr>siteKey = ''a.org'', actions = [\<lparr>actionType = ''t'', timestamp = 1, data = (1::nat)\<rparr>]\<rparr>,
      Some \<lparr>actionType = ''u'', timestamp = 2, data = 2\<rparr>)"
  using C10_push_pop [of "\<lparr>siteKey = ''a.org'',
       actions = [\<lparr>actionType = ''t'', timestamp = 1, data = (1::nat)\<rparr>]\<rparr>" 10
       "\<lparr>actionType = ''u'', timestamp = 2, data = 2\<rparr>"]
  by simp

section \<open>Properties of the cache eviction\<close>

lemma put_all_distinct:
  "distinct (map cacheKey (s @ es)) \<Longrightarrow> foldl (\<lambda>st e. storePut e st) s es = s @ es"
proof (induction es arbitrary: s)
  case Nil
  then show ?case by simp
next
  case (Cons e es)
  have fresh: "filter (\<lambda>x. cacheKey x \<noteq> cacheKey e) s = s"
    using Cons.prems by (auto simp: filter_id_conv image_iff)
  have "distinct (map cacheKey ((s @ [e]) @ es))"
    using Cons.prems by simp
  from Cons.IH [OF this] show ?case
    by (simp add: storePut_def fresh)
qed

lemma increasing_index_order:
  "sorted_wrt (<) (map lastAccessedAt es) \<Longrightarrow>
   sorted (map (\<lambda>e. (lastAccessedAt e, cacheKey e)) es)"
  by (induction es) (auto simp: less_eq_prod_def)

lemma increasing_sorted:
  "sorted_wrt (<) (map lastAccessedAt es) \<Longrightarrow> sorted (map lastAccessedAt es)"
  by (induction es) (auto simp: less_imp_le)

text \<open>
  C8. Put \<open>C + 1\<close> records with pairwise different keys and strictly increasing access
  times into the empty store and run the eviction with capacity \<open>C\<close>: the first record,
  the one with the smallest access time, is gone, the \<open>C\<close> others are all there, and the
  store holds \<open>C\<close> records.
\<close>

theorem C8_lru_eviction:
  fixes es :: "'v CacheEntry list" and C :: nat
  assumes keys: "distinct (map cacheKey es)"
    and times: "sorted_wrt (<) (map lastAccessedAt es)"
    and len: "length es = C + 1"
  shows "evictOldest (int C) (foldl (\<lambda>st e. storePut e st) [] es) = tl es \<and>
    \<not> hasKey (evictOldest (int C) (foldl (\<lambda>st e. storePut e st) [] es)) (cacheKey (hd es)) \<and>
    (\<forall>e \<in> set (tl es).
        hasKey (evictOldest (int C) (foldl (\<lambda>st e. storePut e st) [] es)) (cacheKey e) \<and>
        lastAccessedAt (hd es) < lastAccessedAt e) \<and>
    length (evictOldest (int C) (foldl (\<lambda>st e. storePut e st) [] es)) \<le> C"
proof -
  obtain e0 rest where es: "es = e0 # rest"
    using len by (cases es) auto
  have store: "foldl (\<lambda>st e. storePut e st) [] es = es"
    using put_all_distinct [of "[]" es] keys by simp
  have cursor: "indexCursor es = es"
    unfolding indexCursor_def
    by (rule sort_key_id_if_sorted) (rule increasing_index_order [OF times])
  have sorted: "sort_key lastAccessedAt es = es"
    by (rule sort_key_id_if_sorted) (rule increasing_sorted [OF times])
  have del: "storeDelete (cacheKey e0) es = rest"
    using keys by (auto simp: storeDelete_def es filter_id_conv image_iff)
  have "evictOldest (int C) es = storeDelete (cacheKey e0) es"
    using len by (simp add: evictOldest_def cursor sorted slice0_def) (simp add: es)
  then have evict: "evictOldest (int C) es = rest"
    by (simp add: del)
  have absent: "\<not> hasKey rest (cacheKey e0)"
    using keys by (auto simp: hasKey_def es)
  have present: "\<forall>e \<in> set rest. hasKey rest (cacheKey e) \<and> lastAccessedAt e0 < lastAccessedAt e"
    using times by (auto simp: hasKey_def es)
  have final: "evictOldest (int C) (foldl (\<lambda>st e. storePut e st) [] es) = rest"
    unfolding store by (rule evict)
  show ?thesis
    unfolding final using absent present len by (simp add: es)
qed

theorem C8_lru_eviction_witness:
  "distinct (map cacheKey
     [\<lparr>cacheKey = ''k1'', cvalue = (10::nat), lastAccessedAt = 100\<rparr>,
      \<lparr>cacheKey = ''k0'', cvalue = 20, lastAccessedAt = 200\<rparr>,
      \<lparr>cacheKey = ''k2'', cvalue = 30, lastAccessedAt = 300\<rparr>]) \<and>
   sorted_wrt (<) (map lastAccessedAt
     [\<lparr>cacheKey = ''k1'', cvalue = (10::nat), lastAccessedAt = 100\<rparr>,
      \<lparr>cacheKey = ''k0'', cvalue = 20, lastAccessedAt = 200\<rparr>,
      \<lparr>cacheKey = ''k2'', cvalue = 30, lastAccessedAt = 300\<rparr>]) \<and>
   length
     [\<lparr>cacheKey = ''k1'', cvalue = (10::nat), lastAccessedAt = 100\<rparr>,
      \<lparr>cacheKey = ''k0'', cvalue = 20, lastAccessedAt = 200\<rparr>,
      \<lparr>cacheKey = ''k2'', cvalue = 30, lastAccessedAt = 300\<rparr>] = 2 + 1 \<and>
   evictOldest (int 2) (foldl (\<lambda>st e. storePut e st) []
     [\<lparr>cacheKey = ''k1'', cvalue = (10::nat), lastAccessedAt = 100\<rparr>,
      \<lparr>cacheKey = ''k0'', cvalue = 20, lastAccessedAt = 200\<rparr>,
      \<lparr>cacheKey = ''k2'', cvalue = 30, lastAccessedAt = 300\<rparr>])
   = [\<lparr>cacheKey = ''k0'', cvalue = 20, lastAccessedAt = 200\<rparr>,
      \<lparr>cacheKey = ''k2'', cvalue = 30, lastAccessedAt = 300\<rparr>]"
  using C8_lru_eviction [of
     "[\<lparr>cacheKey = ''k1'', cvalue = (10::nat), lastAccessedAt = 100\<rparr>,
      \<lparr>cacheKey = ''k0'', cvalue = 20, lastAccessedAt = 200\<rparr>,
      \<lparr>cacheKey = ''k2'', cvalue = 30, lastAccessedAt = 300\<rparr>]" 2]
  by simp

section \<open>Properties of the length stage\<close>

lemma sentenceMatches_wellFormed: "m \<in> set (sentenceMatches s) \<Longrightarrow> wellFormed m"
proof (induction s rule: sentenceMatches.induct)
  case (1 s)
  define start where "start = dropWhile isTerminator s"
  define body where "body = takeWhile (\<lambda>c. \<not> isTerminator c) start"
  define rest where "rest = dropWhile (\<lambda>c. \<not> isTerminator c) start"
  define marks where "marks = takeWhile isTerminator rest"
  show ?case
  proof (cases "body = [] \<or> marks = []")
    case True
    then have "sentenceMatches s = []"
      by (subst sentenceMatches.simps) (simp add: Let_def body_def marks_def rest_def start_def)
    with 1 show ?thesis by simp
  next
    case False
    then have eq: "sentenceMatches s = (body @ marks) # sentenceMatches (dropWhile isTerminator rest)"
      by (subst sentenceMatches.simps) (simp add: Let_def body_def marks_def rest_def start_def)
    have wf: "wellFormed (body @ marks)"
      unfolding wellFormed_def
    proof (intro exI conjI)
      show "body @ marks = body @ marks" by simp
      show "body \<noteq> []" "marks \<noteq> []" using False by simp_all
      show "\<forall>c \<in> set body. \<not> isTerminator c"
        by (auto simp: body_def dest: set_takeWhileD)
      show "\<forall>c \<in> set marks. isTerminator c"
        by (auto simp: marks_def dest: set_takeWhileD)
    qed
    from 1(2) eq consider "m = body @ marks" | "m \<in> set (sentenceMatches (dropWhile isTerminator rest))"
      by auto
    then show ?thesis
    proof cases
      case 1
      then show ?thesis using wf by simp
    next
      case 2
      show ?thesis
        by (rule 1(1) [OF start_def body_def rest_def marks_def False 2])
    qed
  qed
qed

lemma sentenceMatches_step:
  assumes "wellFormed m" and "r = [] \<or> \<not> isTerminator (hd r)"
  shows "sentenceMatches (m @ r) = m # sentenceMatches r"
proof -
  from assms(1) obtain b t where m: "m = b @ t" and b: "b \<noteq> []" "\<forall>c \<in> set b. \<not> isTerminator c"
    and t: "t \<noteq> []" "\<forall>c \<in> set t. isTerminator c"
    unfolding wellFormed_def by blast
  have start: "dropWhile isTerminator (b @ t @ r) = b @ t @ r"
    using b by (cases b) auto
  have body: "takeWhile (\<lambda>c. \<not> isTerminator c) (b @ t @ r) = b"
    using b t by (cases t) (auto simp: takeWhile_append2 takeWhile_tail)
  have rest: "dropWhile (\<lambda>c. \<not> isTerminator c) (b @ t @ r) = t @ r"
    using b t by (cases t) (auto simp: dropWhile_append2)
  have marks: "takeWhile isTerminator (t @ r) = t"
    using t assms(2) by (cases r) (auto simp: takeWhile_append2 takeWhile_tail)
  have after: "dropWhile isTerminator (t @ r) = r"
    using t assms(2) by (cases r) (auto simp: dropWhile_append2)
  show ?thesis
    by (subst sentenceMatches.simps) (simp add: m start body rest marks after b t Let_def)
qed

lemma sentenceMatches_Nil: "sentenceMatches [] = []"
  by (subst sentenceMatches.simps) simp

lemma sentenceMatches_join:
  assumes "ms \<noteq> []" and "\<forall>m \<in> set ms. wellFormed m" and "\<forall>c \<in> set p. \<not> isTerminator c"
  shows "length (sentenceMatches (p @ joinWith '' '' ms)) = length ms"
  using assms
proof (induction ms arbitrary: p)
  case Nil
  then show ?case by simp
next
  case (Cons m rest)
  from Cons.prems obtain b t where m: "m = b @ t" and b: "b \<noteq> []" "\<forall>c \<in> set b. \<not> isTerminator c"
    and t: "t \<noteq> []" "\<forall>c \<in> set t. isTerminator c"
    unfolding wellFormed_def by auto
  have wf: "wellFormed (p @ m)"
    unfolding wellFormed_def
    using b t Cons.prems(3) by (intro exI [of _ "p @ b"] exI [of _ t]) (auto simp: m)
  show ?case
  proof (cases rest)
    case Nil
    have "sentenceMatches ((p @ m) @ []) = (p @ m) # sentenceMatches []"
      by (rule sentenceMatches_step [OF wf]) simp
    then show ?thesis using Nil by (simp add: sentenceMatches_Nil)
  next
    case (Cons m2 rest2)
    have "sentenceMatches ((p @ m) @ ('' '' @ joinWith '' '' rest)) =
            (p @ m) # sentenceMatches ('' '' @ joinWith '' '' rest)"
      by (rule sentenceMatches_step [OF wf]) (simp add: isTerminator_def)
    moreover have "length (sentenceMatches ('' '' @ joinWith '' '' rest)) = length rest"
      using Cons.IH [of "'' ''"] Cons.prems Cons by (simp add: isTerminator_def)
    ultimately show ?thesis using Cons by simp
  qed
qed

lemma sentences_nonempty: "1 \<le> length (sentences s)"
  by (simp add: sentences_def split: list.splits)

lemma ceiling_tenths:
  "1 \<le> n \<Longrightarrow> 1 \<le> \<lceil>rat_of_nat n * (3 / 10)\<rceil> \<and> 1 \<le> \<lceil>rat_of_nat n * (6 / 10)\<rceil>"
  by (simp add: ceiling_le_iff less_ceiling_iff [symmetric] not_le [symmetric])

text \<open>
  The targets of the modes that the code computes as the specification says: three and
  six tenths of the number of sentences, rounded up, for \<open>Short\<close> and \<open>Medium\<close> (at
  least 1, since there is at least one sentence), that number for \<open>Long\<close> and for
  \<open>Custom\<close> without a length, and for \<open>Custom\<close> a length that is at least 1; the result
  is made of the first sentences, that many, with one space between them.
\<close>

lemma length_stage_targets:
  fixes s :: string and n :: nat
  defines "n \<equiv> length (sentences s)"
  shows "targetSentences Short c n = \<lceil>rat_of_nat n * (3 / 10)\<rceil>"
    and "targetSentences Medium c n = \<lceil>rat_of_nat n * (6 / 10)\<rceil>"
    and "targetSentences Long c n = int n"
    and "targetSentences Custom None n = int n"
    and "1 \<le> k \<Longrightarrow> targetSentences Custom (Some k) n = k"
    and "0 \<le> targetSentences mode c n \<Longrightarrow>
           applyLengthTransform s mode c =
             joinWith '' '' (take (nat (targetSentences mode c n)) (sentences s))"
proof -
  have n: "1 \<le> n"
    unfolding n_def by (rule sentences_nonempty)
  show "targetSentences Short c n = \<lceil>rat_of_nat n * (3 / 10)\<rceil>"
    and "targetSentences Medium c n = \<lceil>rat_of_nat n * (6 / 10)\<rceil>"
    using ceiling_tenths [OF n] by (simp_all add: targetSentences_def)
  show "targetSentences Long c n = int n" and "targetSentences Custom None n = int n"
    by (simp_all add: targetSentences_def)
  show "1 \<le> k \<Longrightarrow> targetSentences Custom (Some k) n = k"
    by (simp add: targetSentences_def)
  show "0 \<le> targetSentences mode c n \<Longrightarrow>
           applyLengthTransform s mode c =
             joinWith '' '' (take (nat (targetSentences mode c n)) (sentences s))"
    by (simp add: applyLengthTransform_def Let_def slice0_def n_def)
qed

text \<open>
  C4, at a request the worker accepts: mode \<open>Custom\<close> with \<^verbatim>\<open>customLength = -1\<close> on a
  text of three sentences. The target is \<open>-1\<close>, not 1: \<^verbatim>\<open>slice(0, -1)\<close> drops the last
  sentence and two are returned. With \<^verbatim>\<open>customLength = 0\<close> the target is the number of
  sentences. The branches for \<open>Short\<close> and \<open>Medium\<close> take the maximum with 1; the branch
  for \<open>Custom\<close> does not.
\<close>

theorem C4_custom_length_unclamped:
  "targetSentences Custom (Some (- 1)) (length (sentences ''A. B. C.'')) = - 1 \<and>
   applyLengthTransform ''A. B. C.'' Custom (Some (- 1)) = ''A.  B.'' \<and>
   targetSentences Custom (Some 0) (length (sentences ''A. B. C.'')) = 3"
  by code_simp

text \<open>
  C5. The length stage with mode \<open>Long\<close> gives a text with as many sentences as its
  input, for the splitting of the stage itself: the matches of the sentence pattern, or
  the whole text as one sentence when there is no match.
\<close>

theorem C5_long_keeps_sentence_count:
  "length (sentences (applyLengthTransform text Long cl)) = length (sentences text)"
proof (cases "sentenceMatches text")
  case Nil
  then show ?thesis
    by (simp add: applyLengthTransform_def sentences_def targetSentences_def slice0_def)
next
  case (Cons m ms)
  have out: "applyLengthTransform text Long cl = joinWith '' '' (m # ms)"
    using Cons by (simp add: applyLengthTransform_def sentences_def targetSentences_def slice0_def)
  have "\<forall>x \<in> set (m # ms). wellFormed x"
    using sentenceMatches_wellFormed [of _ "text"] Cons by simp
  then have "length (sentenceMatches ([] @ joinWith '' '' (m # ms))) = length (m # ms)"
    by (intro sentenceMatches_join) simp_all
  then have len: "length (sentenceMatches (joinWith '' '' (m # ms))) = Suc (length ms)"
    by simp
  then obtain x xs where "sentenceMatches (joinWith '' '' (m # ms)) = x # xs"
    by (cases "sentenceMatches (joinWith '' '' (m # ms))") auto
  with len show ?thesis
    using Cons by (simp add: out sentences_def)
qed


section \<open>Whole-word replacement, word by word\<close>

lemma space_not_word: "isSpace c \<Longrightarrow> \<not> isWordChar c"
  by (auto simp: isSpace_def isWordChar_def Let_def)

lemma canonicalize_code:
  "(of_char (canonicalize c) :: nat) =
     (if (97 \<le> (of_char c :: nat) \<and> (of_char c :: nat) \<le> 122) \<or>
         (224 \<le> (of_char c :: nat) \<and> (of_char c :: nat) \<le> 254 \<and> (of_char c :: nat) \<noteq> 247)
      then of_char c - 32 else of_char c)"
proof -
  have "(of_char c :: nat) - 32 < 256"
    using nat_of_char_less_256 [of c] by arith
  then show ?thesis
    by (simp add: canonicalize_def Let_def)
qed

lemma canon_arith:
  fixes m n :: nat
  assumes eq: "(if (97 \<le> m \<and> m \<le> 122) \<or> (224 \<le> m \<and> m \<le> 254 \<and> m \<noteq> 247) then m - 32 else m) =
             (if (97 \<le> n \<and> n \<le> 122) \<or> (224 \<le> n \<and> n \<le> 254 \<and> n \<noteq> 247) then n - 32 else n)"
    and m: "(48 \<le> m \<and> m \<le> 57) \<or> (65 \<le> m \<and> m \<le> 90) \<or> m = 95 \<or> (97 \<le> m \<and> m \<le> 122)"
  shows "(48 \<le> n \<and> n \<le> 57) \<or> (65 \<le> n \<and> n \<le> 90) \<or> n = 95 \<or> (97 \<le> n \<and> n \<le> 122)"
proof -
  define v where "v = (if (97 \<le> m \<and> m \<le> 122) \<or> (224 \<le> m \<and> m \<le> 254 \<and> m \<noteq> 247) then m - 32 else m)"
  have v: "(48 \<le> v \<and> v \<le> 57) \<or> (65 \<le> v \<and> v \<le> 90) \<or> v = 95"
  proof (cases "97 \<le> m \<and> m \<le> 122")
    case True
    then have "v = m - 32" by (simp add: v_def)
    with True show ?thesis by arith
  next
    case False
    with m have "m \<le> 95" by arith
    then have "v = m" by (simp add: v_def)
    with m False show ?thesis by arith
  qed
  show ?thesis
  proof (cases "(97 \<le> n \<and> n \<le> 122) \<or> (224 \<le> n \<and> n \<le> 254 \<and> n \<noteq> 247)")
    case True
    have "v = n - 32"
      unfolding v_def eq using True by (simp only: if_True)
    with v True show ?thesis by arith
  next
    case False
    have "v = n"
      unfolding v_def eq using False by (simp only: if_False)
    with v show ?thesis by arith
  qed
qed

lemma canonicalize_word:
  assumes "canonicalize p = canonicalize c" and "isWordChar p"
  shows "isWordChar c"
proof -
  define m where "m = (of_char p :: nat)"
  define n where "n = (of_char c :: nat)"
  have "(of_char (canonicalize p) :: nat) = of_char (canonicalize c)"
    using assms(1) by simp
  then have eq: "(if (97 \<le> m \<and> m \<le> 122) \<or> (224 \<le> m \<and> m \<le> 254 \<and> m \<noteq> 247) then m - 32 else m) =
             (if (97 \<le> n \<and> n \<le> 122) \<or> (224 \<le> n \<and> n \<le> 254 \<and> n \<noteq> 247) then n - 32 else n)"
    unfolding canonicalize_code m_def n_def .
  have "(48 \<le> m \<and> m \<le> 57) \<or> (65 \<le> m \<and> m \<le> 90) \<or> m = 95 \<or> (97 \<le> m \<and> m \<le> 122)"
    using assms(2) by (simp add: isWordChar_def Let_def m_def)
  then have "(48 \<le> n \<and> n \<le> 57) \<or> (65 \<le> n \<and> n \<le> 90) \<or> n = 95 \<or> (97 \<le> n \<and> n \<le> 122)"
    by (rule canon_arith [OF eq])
  then show ?thesis
    by (simp add: isWordChar_def Let_def n_def)
qed


lemma ciEq_word: "ciEq f w \<Longrightarrow> \<forall>c \<in> set f. isWordChar c \<Longrightarrow> \<forall>c \<in> set w. isWordChar c"
  unfolding ciEq_def
  by (induction f w rule: list_all2_induct) (auto simp: sameChar_def dest: canonicalize_word)

lemma matchHere_Nil: "key \<noteq> [] \<Longrightarrow> \<not> matchHere i key p []"
  by (simp add: matchHere_def)

lemma replaceWord_prev_cong:
  "isWordAt p = isWordAt q \<Longrightarrow> replaceWord i f r p s = replaceWord i f r q s"
  by (cases s) (simp_all add: matchHere_def wordBoundary_def)

lemma no_match_at_nonword:
  assumes "plainWord f" and "\<not> isWordChar c"
  shows "\<not> matchHere True f p (c # cs)"
proof
  assume m: "matchHere True f p (c # cs)"
  from assms(1) obtain f0 f' where f: "f = f0 # f'" and w: "isWordChar f0"
    by (cases f) (auto simp: plainWord_def)
  from m have "sameChar True f0 c"
    by (simp add: matchHere_def f Let_def)
  then have "isWordChar c"
    using w by (auto simp: sameChar_def dest: canonicalize_word)
  with assms(2) show False by simp
qed

lemma no_match_mid_word:
  assumes "plainWord f" and "isWordAt p"
  shows "\<not> matchHere True f p (c # cs)"
proof (cases "isWordChar c")
  case True
  then show ?thesis
    using assms(2) by (simp add: matchHere_def wordBoundary_def charAt_def isWordAt_def)
next
  case False
  then show ?thesis by (rule no_match_at_nonword [OF assms(1)])
qed

lemma replaceWord_nonword:
  assumes "plainWord f" and "\<not> isWordChar c"
  shows "replaceWord True f r p (c # cs) = c # replaceWord True f r None cs"
proof -
  have "replaceWord True f r (Some c) cs = replaceWord True f r None cs"
    by (rule replaceWord_prev_cong) (simp add: isWordAt_def assms(2))
  then show ?thesis
    using no_match_at_nonword [OF assms] by simp
qed

lemma replaceWord_starts_nonword:
  assumes "plainWord f" and "startsNonWord s"
  shows "replaceWord True f r p s = replaceWord True f r None s"
proof (cases s)
  case Nil
  then show ?thesis
    using assms(1) by (simp add: matchHere_Nil plainWord_def)
next
  case (Cons c cs)
  then have "\<not> isWordChar c"
    using assms(2) by (simp add: startsNonWord_def)
  then have "replaceWord True f r p (c # cs) = c # replaceWord True f r None cs"
    and "replaceWord True f r None (c # cs) = c # replaceWord True f r None cs"
    by (rule replaceWord_nonword [OF assms(1)])+
  then show ?thesis
    by (simp only: Cons)
qed

lemma replaceWord_mid_word:
  assumes "plainWord f" and "isWordAt p" and "\<forall>c \<in> set w. isWordChar c" and "startsNonWord rest"
  shows "replaceWord True f r p (w @ rest) = w @ replaceWord True f r None rest"
  using assms(2,3)
proof (induction w arbitrary: p)
  case Nil
  show ?case
    using replaceWord_starts_nonword [OF assms(1,4)] by simp
next
  case (Cons c w)
  have "replaceWord True f r (Some c) (w @ rest) = w @ replaceWord True f r None rest"
    using Cons.prems by (intro Cons.IH) (simp_all add: isWordAt_def)
  then show ?case
    using no_match_mid_word [OF assms(1) Cons.prems(1)] by simp
qed

lemma match_whole_run:
  assumes f: "plainWord f" and p: "\<not> isWordAt p" and w: "w \<noteq> []" "\<forall>c \<in> set w. isWordChar c"
    and rest: "startsNonWord rest"
  shows "matchHere True f p (w @ rest) \<longleftrightarrow> ciEq f w"
proof
  assume eq: "ciEq f w"
  then have len: "length f = length w"
    by (simp add: ciEq_def list_all2_lengthD)
  have first: "isWordAt (charAt (w @ rest) 0)"
    using w by (cases w) (simp_all add: charAt_def isWordAt_def)
  have lastc: "isWordAt (charAt (w @ rest) (length w - 1))"
    using w by (cases w rule: rev_cases) (simp_all add: charAt_def nth_append isWordAt_def)
  have nextc: "\<not> isWordAt (charAt (w @ rest) (length w))"
    using rest by (cases rest) (simp_all add: charAt_def isWordAt_def startsNonWord_def)
  have "list_all2 (sameChar True) f (take (length w) (w @ rest))"
    using eq by (simp add: ciEq_def)
  then show "matchHere True f p (w @ rest)"
    unfolding matchHere_def Let_def len wordBoundary_def
    using w p nextc first lastc by simp
next
  assume m: "matchHere True f p (w @ rest)"
  define n where "n = length f"
  have n: "0 < n" "n \<le> length (w @ rest)"
    using m f by (simp_all add: matchHere_def Let_def n_def plainWord_def)
  have all2: "list_all2 (sameChar True) f (take n (w @ rest))"
    using m by (simp add: matchHere_def Let_def n_def)
  have bound: "wordBoundary (charAt (w @ rest) (n - 1)) (charAt (w @ rest) n)"
    using m n by (simp add: matchHere_def Let_def n_def)
  have words: "\<forall>c \<in> set (take n (w @ rest)). isWordChar c"
    using ciEq_word [of f "take n (w @ rest)"] all2 f by (simp add: ciEq_def plainWord_def)
  have le: "n \<le> length w"
  proof (rule ccontr)
    assume "\<not> n \<le> length w"
    then have gt: "length w < n" by simp
    then obtain c cs where r: "rest = c # cs"
      using n by (cases rest) auto
    have "c \<in> set (take n (w @ rest))"
      using gt by (cases "n - length w") (simp_all add: r)
    then have "isWordChar c" using words by blast
    then show False using rest by (simp add: r startsNonWord_def)
  qed
  have "n = length w"
  proof (rule ccontr)
    assume "n \<noteq> length w"
    then have lt: "n < length w" using le by simp
    have "isWordAt (charAt (w @ rest) (n - 1))" "isWordAt (charAt (w @ rest) n)"
      using lt n w by (simp_all add: charAt_def isWordAt_def nth_append)
    then show False using bound by (simp add: wordBoundary_def)
  qed
  then show "ciEq f w"
    using all2 by (simp add: ciEq_def)
qed

lemma replaceWord_run:
  assumes f: "plainWord f" and p: "\<not> isWordAt p" and w: "w \<noteq> []" "\<forall>c \<in> set w. isWordChar c"
    and rest: "startsNonWord rest"
  shows "replaceWord True f r p (w @ rest) =
           (if ciEq f w then r else w) @ replaceWord True f r None rest"
proof -
  obtain c w' where cw: "w = c # w'"
    using w by (cases w) auto
  show ?thesis
  proof (cases "ciEq f w")
    case True
    then have m: "matchHere True f p (c # w' @ rest)"
      using match_whole_run [OF f p w rest] by (simp add: cw)
    have len: "length f = length w"
      using True by (simp add: ciEq_def list_all2_lengthD)
    have "replaceWord True f r p (c # w' @ rest) =
            r @ replaceWord True f r (charAt (c # w' @ rest) (length f - 1)) (drop (length f) (c # w' @ rest))"
      using m f by (simp add: plainWord_def)
    also have "drop (length f) (c # w' @ rest) = rest"
      using len by (simp add: cw)
    also have "replaceWord True f r (charAt (c # w' @ rest) (length f - 1)) rest =
                 replaceWord True f r None rest"
      by (rule replaceWord_starts_nonword [OF f rest])
    finally show ?thesis using True by (simp add: cw)
  next
    case False
    then have m: "\<not> matchHere True f p (c # w' @ rest)"
      using match_whole_run [OF f p w rest] by (simp add: cw)
    have "replaceWord True f r (Some c) (w' @ rest) = w' @ replaceWord True f r None rest"
      using w by (intro replaceWord_mid_word [OF f]) (simp_all add: cw isWordAt_def rest)
    then show ?thesis using m False by (simp add: cw)
  qed
qed

lemma token_induct [case_names Nil NonWord Run]:
  assumes "P []"
    and "\<And>c cs. \<not> isWordChar c \<Longrightarrow> P cs \<Longrightarrow> P (c # cs)"
    and "\<And>w rest. w \<noteq> [] \<Longrightarrow> \<forall>c \<in> set w. isWordChar c \<Longrightarrow> startsNonWord rest \<Longrightarrow> P rest
           \<Longrightarrow> P (w @ rest)"
  shows "P s"
proof (induction s rule: length_induct)
  case (1 s)
  show ?case
  proof (cases s)
    case Nil
    then show ?thesis using assms(1) by simp
  next
    case (Cons c cs)
    show ?thesis
    proof (cases "isWordChar c")
      case False
      then show ?thesis
        using assms(2) 1 Cons by simp
    next
      case True
      define w where "w = takeWhile isWordChar s"
      define rest where "rest = dropWhile isWordChar s"
      have s: "s = w @ rest" by (simp add: w_def rest_def)
      have w: "w \<noteq> []" "\<forall>c \<in> set w. isWordChar c"
        using True Cons by (auto simp: w_def dest: set_takeWhileD)
      have r: "startsNonWord rest"
      proof (cases rest)
        case Nil
        then show ?thesis by (simp add: startsNonWord_def)
      next
        case (Cons d ds)
        then have "\<not> isWordChar d"
          unfolding rest_def by (simp add: dropWhile_eq_Cons_conv)
        then show ?thesis by (simp add: Cons startsNonWord_def)
      qed
      have "length rest < length s"
        using w s by (metis append_self_conv2 length_append length_greater_0_conv less_add_same_cancel2)
      then have "P rest" using 1 by blast
      then show ?thesis
        unfolding s by (rule assms(3) [OF w r])
    qed
  qed
qed

lemma wordRuns_nonword: "\<not> isWordChar c \<Longrightarrow> wordRuns (c # cs) = wordRuns cs"
  by simp

lemma wordRuns_run:
  "w \<noteq> [] \<Longrightarrow> \<forall>c \<in> set w. isWordChar c \<Longrightarrow> startsNonWord rest \<Longrightarrow>
   wordRuns (w @ rest) = w # wordRuns rest"
proof (induction w)
  case Nil
  then show ?case by simp
next
  case (Cons c w)
  show ?case
  proof (cases w)
    case Nil
    then show ?thesis using Cons.prems by simp
  next
    case (Cons d w')
    then have "\<not> startsNonWord (w @ rest)"
      using Cons.prems by (simp add: startsNonWord_def)
    moreover have "wordRuns (w @ rest) = w # wordRuns rest"
      using Cons.prems Cons by (intro Cons.IH) simp_all
    ultimately show ?thesis using Cons.prems by simp
  qed
qed

lemma replaceWord_keeps_nonword_start:
  assumes "plainWord f" and "startsNonWord s"
  shows "startsNonWord (replaceWord True f r None s)"
proof (cases s)
  case Nil
  then show ?thesis
    using assms(1) by (simp add: matchHere_Nil plainWord_def startsNonWord_def)
next
  case (Cons c cs)
  then have "\<not> isWordChar c"
    using assms(2) by (simp add: startsNonWord_def)
  then show ?thesis
    by (simp add: Cons replaceWord_nonword [OF assms(1)] startsNonWord_def del: replaceWord.simps)
qed

lemma replaceWord_clean:
  assumes f: "plainWord f"
  shows "\<forall>w \<in> set (wordRuns s). \<not> ciEq f w \<Longrightarrow> replaceWord True f r None s = s"
proof (induction s rule: token_induct)
  case Nil
  then show ?case using f by (simp add: matchHere_Nil plainWord_def)
next
  case (NonWord c cs)
  then show ?case by (simp add: replaceWord_nonword [OF f] del: replaceWord.simps)
next
  case (Run w rest)
  have runs: "wordRuns (w @ rest) = w # wordRuns rest"
    by (rule wordRuns_run [OF Run(1-3)])
  have "replaceWord True f r None (w @ rest) =
          (if ciEq f w then r else w) @ replaceWord True f r None rest"
    by (rule replaceWord_run [OF f _ Run(1-3)]) (simp add: isWordAt_def)
  then show ?case
    using Run.prems Run.IH by (simp add: runs)
qed

lemma wordRuns_remove:
  assumes f: "plainWord f"
  shows "wordRuns (replaceWord True f [] None s) = filter (\<lambda>w. \<not> ciEq f w) (wordRuns s)"
proof (induction s rule: token_induct)
  case Nil
  then show ?case using f by (simp add: matchHere_Nil plainWord_def)
next
  case (NonWord c cs)
  then show ?case by (simp add: replaceWord_nonword [OF f] del: replaceWord.simps)
next
  case (Run w rest)
  have runs: "wordRuns (w @ rest) = w # wordRuns rest"
    by (rule wordRuns_run [OF Run(1-3)])
  have out: "replaceWord True f [] None (w @ rest) =
          (if ciEq f w then [] else w) @ replaceWord True f [] None rest"
    by (rule replaceWord_run [OF f _ Run(1-3)]) (simp add: isWordAt_def)
  have "startsNonWord (replaceWord True f [] None rest)"
    by (rule replaceWord_keeps_nonword_start [OF f Run(3)])
  then have "wordRuns (w @ replaceWord True f [] None rest) =
               w # wordRuns (replaceWord True f [] None rest)"
    by (rule wordRuns_run [OF Run(1,2)])
  then show ?case
    using Run.IH by (simp add: runs out)
qed

lemma wordRuns_dropWhile_space: "wordRuns (dropWhile isSpace s) = wordRuns s"
  by (induction s) (auto dest: space_not_word)

lemma wordRuns_all_nonword: "\<forall>c \<in> set s. \<not> isWordChar c \<Longrightarrow> wordRuns s = []"
  by (induction s) auto

lemma startsNonWord_append:
  "startsNonWord a \<Longrightarrow> \<forall>c \<in> set b. \<not> isWordChar c \<Longrightarrow> startsNonWord (a @ b)"
  by (cases a; cases b) (auto simp: startsNonWord_def)

lemma wordRuns_append_nonword:
  assumes "\<forall>c \<in> set b. \<not> isWordChar c"
  shows "wordRuns (a @ b) = wordRuns a"
proof (induction a rule: token_induct)
  case Nil
  then show ?case using assms by (simp add: wordRuns_all_nonword)
next
  case (NonWord c cs)
  then show ?case by simp
next
  case (Run w rest)
  have "wordRuns (w @ rest @ b) = w # wordRuns (rest @ b)"
    by (rule wordRuns_run [OF Run(1,2)]) (rule startsNonWord_append [OF Run(3) assms])
  then show ?case
    using Run.IH by (simp add: wordRuns_run [OF Run(1-3)])
qed

lemma trim_decompose:
  "\<exists>sp. dropWhile isSpace s = trim s @ sp \<and> (\<forall>c \<in> set sp. isSpace c)"
proof -
  define u where "u = dropWhile isSpace s"
  have "rev u = takeWhile isSpace (rev u) @ dropWhile isSpace (rev u)"
    by simp
  then have "u = rev (dropWhile isSpace (rev u)) @ rev (takeWhile isSpace (rev u))"
    by (metis rev_append rev_rev_ident)
  moreover have "\<forall>c \<in> set (rev (takeWhile isSpace (rev u))). isSpace c"
    by (auto dest: set_takeWhileD)
  ultimately show ?thesis
    unfolding trim_def u_def by blast
qed

lemma wordRuns_trim: "wordRuns (trim s) = wordRuns s"
proof -
  obtain sp where d: "dropWhile isSpace s = trim s @ sp" and sp: "\<forall>c \<in> set sp. isSpace c"
    using trim_decompose by blast
  have "wordRuns (trim s @ sp) = wordRuns (trim s)"
    by (rule wordRuns_append_nonword) (use sp space_not_word in blast)
  then show ?thesis
    using wordRuns_dropWhile_space [of s] by (simp add: d)
qed

lemma collapseSpaces_start:
  "startsNonWord (collapseSpaces s) = startsNonWord s"
  by (cases s rule: collapseSpaces.cases)
     (auto simp: startsNonWord_def isWordChar_def dest: space_not_word)

lemma wordRuns_collapse: "wordRuns (collapseSpaces s) = wordRuns s"
proof (induction s rule: collapseSpaces.induct)
  case 1
  then show ?case by simp
next
  case (2 c)
  then show ?case by simp
next
  case (3 c d cs)
  show ?case
  proof (cases "isSpace c \<and> isSpace d")
    case True
    then have "wordRuns (collapseSpaces (c # d # cs)) = wordRuns (dropWhile isSpace cs)"
      using 3 by (simp add: isWordChar_def)
    then show ?thesis
      using True by (simp add: wordRuns_dropWhile_space space_not_word)
  next
    case False
    then have out: "collapseSpaces (c # d # cs) = c # collapseSpaces (d # cs)"
      by auto
    have ih: "wordRuns (collapseSpaces (d # cs)) = wordRuns (d # cs)"
      using 3(2) False by simp
    have st: "startsNonWord (collapseSpaces (d # cs)) = startsNonWord (d # cs)"
      by (rule collapseSpaces_start)
    show ?thesis
      unfolding out wordRuns.simps(2) [of c] ih st ..
  qed
qed

section \<open>Properties of the style \<open>concise\<close>\<close>

lemma dropWhile_startsNonSpace: "startsNonSpace (dropWhile isSpace s)"
  by (induction s) (auto simp: startsNonSpace_def)

lemma collapseSpaces_startsNonSpace:
  "startsNonSpace s \<Longrightarrow> startsNonSpace (collapseSpaces s)"
  by (cases s rule: collapseSpaces.cases) (auto simp: startsNonSpace_def)

lemma noSpaceRun_Cons:
  "noSpaceRun (c # s) \<longleftrightarrow> (isSpace c \<longrightarrow> startsNonSpace s) \<and> noSpaceRun s"
  by (cases s) (auto simp: startsNonSpace_def)

lemma noSpaceRun_collapse: "noSpaceRun (collapseSpaces s)"
proof (induction s rule: collapseSpaces.induct)
  case 1
  then show ?case by simp
next
  case (2 c)
  then show ?case by simp
next
  case (3 c d cs)
  show ?case
  proof (cases "isSpace c \<and> isSpace d")
    case True
    have "startsNonSpace (collapseSpaces (dropWhile isSpace cs))"
      by (rule collapseSpaces_startsNonSpace [OF dropWhile_startsNonSpace])
    then show ?thesis
      using True 3(1) by (simp add: noSpaceRun_Cons)
  next
    case False
    then have out: "collapseSpaces (c # d # cs) = c # collapseSpaces (d # cs)"
      by auto
    have "startsNonSpace (collapseSpaces (d # cs))" if "isSpace c"
      using that False by (intro collapseSpaces_startsNonSpace) (simp add: startsNonSpace_def)
    then have "isSpace c \<longrightarrow> startsNonSpace (collapseSpaces (d # cs))"
      by blast
    then show ?thesis
      using 3(2) False unfolding out noSpaceRun_Cons by simp
  qed
qed

lemma collapseSpaces_id: "noSpaceRun s \<Longrightarrow> collapseSpaces s = s"
  by (induction s rule: collapseSpaces.induct) auto

lemma noSpaceRun_append: "noSpaceRun (a @ b) \<Longrightarrow> noSpaceRun a \<and> noSpaceRun b"
proof (induction a rule: noSpaceRun.induct)
  case 1
  then show ?case by simp
next
  case (2 c)
  then show ?case by (cases b) auto
next
  case (3 c d cs)
  then show ?case by simp
qed

lemma noSpaceRun_dropWhile: "noSpaceRun s \<Longrightarrow> noSpaceRun (dropWhile P s)"
  using noSpaceRun_append [of "takeWhile P s" "dropWhile P s"] by simp

lemma noSpaceRun_trim: "noSpaceRun s \<Longrightarrow> noSpaceRun (trim s)"
proof -
  assume "noSpaceRun s"
  then have "noSpaceRun (dropWhile isSpace s)"
    by (rule noSpaceRun_dropWhile)
  moreover obtain sp where "dropWhile isSpace s = trim s @ sp"
    using trim_decompose by blast
  ultimately show ?thesis
    using noSpaceRun_append [of "trim s" sp] by simp
qed

lemma dropWhile_id: "startsNonSpace s \<Longrightarrow> dropWhile isSpace s = s"
  by (cases s) (auto simp: startsNonSpace_def)

lemma trim_trim: "trim (trim s) = trim s"
proof -
  define u where "u = dropWhile isSpace s"
  define v where "v = dropWhile isSpace (rev u)"
  have t: "trim s = rev v"
    by (simp add: trim_def u_def v_def)
  have v: "startsNonSpace v"
    unfolding v_def by (rule dropWhile_startsNonSpace)
  have "startsNonSpace (rev v)"
  proof (cases "rev v")
    case Nil
    then show ?thesis by (simp add: startsNonSpace_def)
  next
    case (Cons c cs)
    then have vv: "v = rev cs @ [c]"
      by (metis rev.simps(2) rev_rev_ident)
    have "rev u = takeWhile isSpace (rev u) @ v"
      by (simp add: v_def)
    then have "u = rev v @ rev (takeWhile isSpace (rev u))"
      by (metis rev_append rev_rev_ident)
    then have "u = c # (cs @ rev (takeWhile isSpace (rev u)))"
      by (simp add: Cons)
    moreover have "startsNonSpace u"
      unfolding u_def by (rule dropWhile_startsNonSpace)
    ultimately have "\<not> isSpace c"
      by (cases u) (auto simp: startsNonSpace_def)
    then show ?thesis by (simp add: Cons startsNonSpace_def)
  qed
  then have "dropWhile isSpace (rev v) = rev v"
    by (rule dropWhile_id)
  moreover have "dropWhile isSpace v = v"
    by (rule dropWhile_id [OF v])
  ultimately have "trim (rev v) = rev v"
    by (simp add: trim_def)
  then show ?thesis by (simp add: t)
qed

lemma plainWord_fillers: "\<forall>f \<in> set fillers. plainWord f"
  by (simp add: fillers_def plainWord_def isWordChar_def)

lemma wordRuns_remove_all:
  assumes "\<forall>f \<in> set fs. plainWord f"
  shows "wordRuns (foldl (\<lambda>result filler. replaceWord True filler [] None result) s fs) =
         filter (\<lambda>w. \<forall>f \<in> set fs. \<not> ciEq f w) (wordRuns s)"
  using assms
proof (induction fs arbitrary: s)
  case Nil
  then show ?case by simp
next
  case (Cons f fs)
  have "wordRuns (foldl (\<lambda>result filler. replaceWord True filler [] None result)
                   (replaceWord True f [] None s) fs) =
        filter (\<lambda>w. \<forall>g \<in> set fs. \<not> ciEq g w) (wordRuns (replaceWord True f [] None s))"
    using Cons.prems by (intro Cons.IH) simp
  also have "wordRuns (replaceWord True f [] None s) = filter (\<lambda>w. \<not> ciEq f w) (wordRuns s)"
    using Cons.prems by (intro wordRuns_remove) simp
  finally show ?case
    by (simp add: conj_commute)
qed

lemma remove_all_clean:
  assumes "\<forall>f \<in> set fs. plainWord f"
    and "\<forall>f \<in> set fs. \<forall>w \<in> set (wordRuns s). \<not> ciEq f w"
  shows "foldl (\<lambda>result filler. replaceWord True filler [] None result) s fs = s"
  using assms
proof (induction fs)
  case Nil
  then show ?case by simp
next
  case (Cons f fs)
  have "replaceWord True f [] None s = s"
    using Cons.prems by (intro replaceWord_clean) simp_all
  then show ?case
    using Cons by simp
qed

text \<open>
  C7. The style \<open>concise\<close> is idempotent: applied to its own result it changes nothing.
  After one pass no maximal run of word characters of the text is a filler in any
  capitalisation, there are no two white spaces in a row and none at either end.
\<close>

theorem C7_concise_idempotent: "concise (concise text) = concise text"
proof -
  define z where "z = foldl (\<lambda>result filler. replaceWord True filler [] None result) text fillers"
  have c: "concise text = trim (collapseSpaces z)"
    by (simp add: concise_def z_def)
  have "wordRuns (concise text) = wordRuns z"
    by (simp add: c wordRuns_trim wordRuns_collapse)
  also have "\<dots> = filter (\<lambda>w. \<forall>f \<in> set fillers. \<not> ciEq f w) (wordRuns text)"
    unfolding z_def by (rule wordRuns_remove_all [OF plainWord_fillers])
  finally have "\<forall>f \<in> set fillers. \<forall>w \<in> set (wordRuns (concise text)). \<not> ciEq f w"
    by simp
  then have 1: "foldl (\<lambda>result filler. replaceWord True filler [] None result) (concise text) fillers
                  = concise text"
    by (rule remove_all_clean [OF plainWord_fillers])
  have "noSpaceRun (concise text)"
    unfolding c by (rule noSpaceRun_trim [OF noSpaceRun_collapse])
  then have 2: "collapseSpaces (concise text) = concise text"
    by (rule collapseSpaces_id)
  have 3: "trim (concise text) = concise text"
    unfolding c by (rule trim_trim)
  have "concise (concise text) = trim (collapseSpaces
          (foldl (\<lambda>result filler. replaceWord True filler [] None result) (concise text) fillers))"
    by (simp add: concise_def)
  then show ?thesis
    by (simp add: 1 2 3)
qed

section \<open>Properties of the tone stage\<close>

lemma ci_list_all2: "list_all2 (sameChar True) xs ys \<longleftrightarrow> map canonicalize ys = map canonicalize xs"
proof -
  have "sameChar True = (\<lambda>x y. canonicalize x = canonicalize y)"
    by (auto simp: sameChar_def fun_eq_iff)
  then have "list_all2 (sameChar True) xs ys \<longleftrightarrow> list_all2 (=) (map canonicalize xs) (map canonicalize ys)"
    by (simp add: list_all2_map1 list_all2_map2)
  then show ?thesis
    unfolding list_all2_eq [symmetric] by auto
qed

lemma matchHere_wholeWordAt:
  assumes key: "wordEnded key" and i: "i \<le> length text"
  shows "matchHere True key (charBefore text i) (drop i text) \<longleftrightarrow> wholeWordAt key text i"
proof -
  define n where "n = length key"
  have n: "0 < n" using key by (simp add: n_def wordEnded_def)
  show ?thesis
  proof (cases "i + n \<le> length text \<and> map canonicalize (take n (drop i text)) = map canonicalize key")
    case False
    then show ?thesis
      using i by (auto simp: matchHere_def wholeWordAt_def Let_def n_def [symmetric] ci_list_all2)
  next
    case True
    then have len: "i + n \<le> length text"
      and eq: "map canonicalize (take n (drop i text)) = map canonicalize key"
      by simp_all
    have tk: "length (take n (drop i text)) = n"
      using len by simp
    have "canonicalize (hd (take n (drop i text))) = canonicalize (hd key)"
      using eq n tk key by (metis hd_map length_greater_0_conv wordEnded_def)
    then have "isWordChar (hd (take n (drop i text)))"
      using key canonicalize_word [of "hd key"] by (simp add: wordEnded_def)
    moreover have "hd (take n (drop i text)) = text ! i"
      using n len by (simp add: hd_conv_nth)
    ultimately have first: "isWordAt (charAt (drop i text) 0)"
      using n len by (simp add: charAt_def isWordAt_def)
    have "canonicalize (last (take n (drop i text))) = canonicalize (last key)"
      using eq n tk key by (metis last_map length_greater_0_conv wordEnded_def)
    then have "isWordChar (last (take n (drop i text)))"
      using key canonicalize_word [of "last key"] by (simp add: wordEnded_def)
    moreover have "last (take n (drop i text)) = drop i text ! (n - 1)"
      using n len tk by (simp add: last_conv_nth)
    ultimately have lastc: "isWordAt (charAt (drop i text) (n - 1))"
      using n len by (simp add: charAt_def isWordAt_def)
    have nextc: "charAt (drop i text) n = charAt text (i + n)"
      using len by (auto simp: charAt_def)
    show ?thesis
      using True n first lastc
      by (auto simp: matchHere_def wholeWordAt_def Let_def n_def [symmetric] ci_list_all2
            wordBoundary_def nextc)
  qed
qed

lemma wholeWordAt_bound: "wordEnded key \<Longrightarrow> wholeWordAt key text j \<Longrightarrow> j < length text"
  by (cases key) (auto simp: wholeWordAt_def wordEnded_def)

lemma scanFrom_end:
  assumes "wordEnded key"
  shows "scanFrom key repl text (length text) = []"
  using assms by (simp add: scanFrom_def matchHere_Nil wordEnded_def)

lemma replaceWord_unfold:
  "s \<noteq> [] \<Longrightarrow>
   replaceWord ic key repl prev s =
     (if matchHere ic key prev s
      then (if key = [] then repl @ hd s # replaceWord ic key repl (Some (hd s)) (tl s)
            else repl @ replaceWord ic key repl (charAt s (length key - 1)) (drop (length key) s))
      else hd s # replaceWord ic key repl (Some (hd s)) (tl s))"
  by (cases s) simp_all

lemma scanFrom_step:
  assumes key: "wordEnded key" and i: "i < length text"
  shows "scanFrom key repl text i =
           (if wholeWordAt key text i then repl @ scanFrom key repl text (i + length key)
            else text ! i # scanFrom key repl text (Suc i))"
proof -
  have ne: "drop i text \<noteq> []"
    using i by simp
  have hd: "hd (drop i text) = text ! i"
    using i by (simp add: hd_drop_conv_nth)
  have tl: "tl (drop i text) = drop (Suc i) text"
    by (simp add: drop_Suc tl_drop)
  have m: "matchHere True key (charBefore text i) (drop i text) \<longleftrightarrow> wholeWordAt key text i"
    using matchHere_wholeWordAt [OF key, of i "text"] i by simp
  have nxt: "Some (text ! i) = charBefore text (Suc i)"
    using i by (simp add: charBefore_def charAt_def)
  have k: "0 < length key" "key \<noteq> []"
    using key by (simp_all add: wordEnded_def)
  show ?thesis
  proof (cases "wholeWordAt key text i")
    case False
    then show ?thesis
      unfolding scanFrom_def replaceWord_unfold [OF ne] m hd tl nxt by simp
  next
    case True
    then have len: "i + length key \<le> length text"
      by (simp add: wholeWordAt_def)
    have lt: "length key - 1 < length text - i" "i + length key - 1 < length text"
      "i + length key \<noteq> 0" "i + (length key - 1) \<le> length text"
      using k(1) len by arith+
    have a: "charAt (drop i text) (length key - 1) = Some (text ! (i + (length key - 1)))"
      using lt(1,4) unfolding charAt_def by simp
    have b: "charBefore text (i + length key) = Some (text ! (i + length key - 1))"
      using lt(2,3) unfolding charAt_def charBefore_def by simp
    have e: "i + (length key - 1) = i + length key - 1"
      using k by arith
    have prev: "charAt (drop i text) (length key - 1) = charBefore text (i + length key)"
      unfolding a b e ..
    have rest: "drop (length key) (drop i text) = drop (i + length key) text"
      by (simp add: add.commute)
    show ?thesis
      unfolding scanFrom_def replaceWord_unfold [OF ne] m prev rest using True k by simp
  qed
qed

lemma scanFrom_no_occurrence:
  assumes key: "wordEnded key"
  shows "i \<le> length text \<Longrightarrow> \<forall>j. i \<le> j \<longrightarrow> \<not> wholeWordAt key text j \<Longrightarrow>
         scanFrom key repl text i = drop i text"
proof (induction "length text - i" arbitrary: i)
  case 0
  then have "i = length text" by simp
  then show ?case by (simp add: scanFrom_end [OF key])
next
  case (Suc d)
  then have i: "i < length text" by simp
  have "scanFrom key repl text (Suc i) = drop (Suc i) text"
    using Suc by (intro Suc.hyps(1)) auto
  then show ?case
    using scanFrom_step [OF key i] Suc.prems(2) i by (simp add: Cons_nth_drop_Suc)
qed

lemma scanFrom_first_occurrence:
  assumes key: "wordEnded key"
  shows "i \<le> j \<Longrightarrow> wholeWordAt key text j \<Longrightarrow> \<forall>k. i \<le> k \<and> k < j \<longrightarrow> \<not> wholeWordAt key text k \<Longrightarrow>
         scanFrom key repl text i =
           take (j - i) (drop i text) @ repl @ scanFrom key repl text (j + length key)"
proof (induction "j - i" arbitrary: i)
  case 0
  then have "i = j" by simp
  moreover have "j < length text"
    using 0(3) key by (rule wholeWordAt_bound [rotated])
  ultimately show ?case
    using scanFrom_step [OF key, of j "text"] 0(3) by simp
next
  case (Suc d)
  then have lt: "i < j" by simp
  have jl: "j < length text"
    using Suc.prems(2) key by (rule wholeWordAt_bound [rotated])
  have i: "i < length text" using lt jl by simp
  have "scanFrom key repl text (Suc i) =
          take (j - Suc i) (drop (Suc i) text) @ repl @ scanFrom key repl text (j + length key)"
    using Suc by (intro Suc.hyps(1)) auto
  moreover have "\<not> wholeWordAt key text i"
    using Suc.prems(3) lt by simp
  moreover have "take (j - i) (drop i text) = text ! i # take (j - Suc i) (drop (Suc i) text)"
    using lt i by (simp add: Cons_nth_drop_Suc [symmetric] take_Suc_Cons [symmetric] Suc_diff_Suc
        del: take_Suc_Cons)
  ultimately show ?case
    using scanFrom_step [OF key i] by simp
qed

lemma lexicon_keys: "\<forall>(name, lexicon) \<in> set TONE_LEXICONS. \<forall>(key, repl) \<in> set lexicon. wordEnded key"
  by (simp add: TONE_LEXICONS_def wordEnded_def isWordChar_def)

lemma hi_in_hiking: "\<not> wholeWordAt ''hi'' (pre @ ''hiking'' @ post) (length pre)"
  by (simp add: wholeWordAt_def charAt_def isWordAt_def isWordChar_def nth_append)

lemma hi_alone:
  assumes "h \<in> {CHR ''h'', CHR ''H''}" and "i \<in> {CHR ''i'', CHR ''I''}"
    and "pre = [] \<or> \<not> isWordChar (last pre)" and "post = [] \<or> \<not> isWordChar (hd post)"
  shows "wholeWordAt ''hi'' (pre @ [h, i] @ post) (length pre)"
proof -
  have "canonicalize CHR ''h'' = CHR ''H''" "canonicalize CHR ''H'' = CHR ''H''"
    "canonicalize CHR ''i'' = CHR ''I''" "canonicalize CHR ''I'' = CHR ''I''"
    by code_simp+
  then have "map canonicalize [h, i] = map canonicalize ''hi''"
    using assms(1,2) by auto
  moreover have "\<not> isWordAt (charBefore (pre @ [h, i] @ post) (length pre))"
    using assms(3) by (cases pre rule: rev_cases) (auto simp: charBefore_def charAt_def isWordAt_def nth_append)
  moreover have "\<not> isWordAt (charAt (pre @ [h, i] @ post) (length pre + 2))"
    using assms(4) by (cases post) (auto simp: charAt_def isWordAt_def nth_append)
  ultimately show ?thesis
    by (simp add: wholeWordAt_def)
qed

text \<open>
  C6. For every entry of every tone lexicon the replacement touches the whole-word
  occurrences of the key, in any capitalisation, and nothing else: the stage applies the
  entries one after the other; where no occurrence follows, the text is copied; up to
  the first occurrence the text is copied, the occurrence is replaced and the scan goes
  on behind it. The \<^verbatim>\<open>hi\<close> of \<^verbatim>\<open>hiking\<close> is no whole-word occurrence in any text, and a
  \<^verbatim>\<open>hi\<close> in any capitalisation with no word character next to it is one.
\<close>

theorem C6_tone_whole_words:
  assumes "(name, lexicon) \<in> set TONE_LEXICONS" and "(key, repl) \<in> set lexicon"
  shows "applyToneTransform text name =
           foldl (\<lambda>result (phrase, swap). scanFrom phrase swap result 0) text lexicon \<and>
         (i \<le> length text \<and> (\<forall>j. i \<le> j \<longrightarrow> \<not> wholeWordAt key text j) \<longrightarrow>
            scanFrom key repl text i = drop i text) \<and>
         (i \<le> j \<and> wholeWordAt key text j \<and> (\<forall>k. i \<le> k \<and> k < j \<longrightarrow> \<not> wholeWordAt key text k) \<longrightarrow>
            scanFrom key repl text i =
              take (j - i) (drop i text) @ repl @ scanFrom key repl text (j + length key)) \<and>
         \<not> wholeWordAt ''hi'' (pre @ ''hiking'' @ post) (length pre) \<and>
         (h \<in> {CHR ''h'', CHR ''H''} \<and> l \<in> {CHR ''i'', CHR ''I''} \<and>
          (pre = [] \<or> \<not> isWordChar (last pre)) \<and> (post = [] \<or> \<not> isWordChar (hd post)) \<longrightarrow>
            wholeWordAt ''hi'' (pre @ [h, l] @ post) (length pre))"
proof -
  have key: "wordEnded key"
    using lexicon_keys assms by fast
  have "map_of TONE_LEXICONS name = Some lexicon"
    using assms(1) by (intro map_of_is_SomeI) (simp_all add: TONE_LEXICONS_def)
  moreover have "toLowerCase name = name"
    using assms(1) by (auto simp: TONE_LEXICONS_def toLowerCase_def toLowerChar_def)
  ultimately have stage: "applyToneTransform text name =
      foldl (\<lambda>result (phrase, swap). scanFrom phrase swap result 0) text lexicon"
    by (simp add: applyToneTransform_def scanFrom_def charBefore_def)
  show ?thesis
    using stage scanFrom_no_occurrence [OF key, of i "text" repl]
      scanFrom_first_occurrence [OF key, of i j "text" repl]
      hi_in_hiking [of pre post] hi_alone [of h l pre post]
    by blast
qed

theorem C6_tone_whole_words_witness:
  "(''formal'',
      [(''hi'', ''greetings''), (''hey'', ''hello''), (''yeah'', ''yes''), (''nope'', ''no''),
       (''gonna'', ''going to''), (''wanna'', ''want to''), (''kinda'', ''kind of''),
       (''a lot'', ''many''), (''really'', ''very''), (''pretty'', ''quite'')])
     \<in> set TONE_LEXICONS \<and>
   wholeWordAt ''hi'' ''hiking, Hi'' 8 \<and>
   scanFrom ''hi'' ''greetings'' ''hiking, Hi'' 10 = [] \<and>
   scanFrom ''hi'' ''greetings'' ''hiking, Hi'' 0 = ''hiking, greetings''"
proof -
  let ?lexicon = "[(''hi'', ''greetings''), (''hey'', ''hello''), (''yeah'', ''yes''), (''nope'', ''no''),
       (''gonna'', ''going to''), (''wanna'', ''want to''), (''kinda'', ''kind of''),
       (''a lot'', ''many''), (''really'', ''very''), (''pretty'', ''quite'')]"
  have entry: "(''formal'', ?lexicon) \<in> set TONE_LEXICONS" "(''hi'', ''greetings'') \<in> set ?lexicon"
    by (simp_all add: TONE_LEXICONS_def)
  have occ: "wholeWordAt ''hi'' ''hiking, Hi'' 8"
    by code_simp
  have "\<forall>k \<in> set [0..<8]. \<not> wholeWordAt ''hi'' ''hiking, Hi'' k"
    by code_simp
  then have none: "\<forall>k. 0 \<le> k \<and> k < 8 \<longrightarrow> \<not> wholeWordAt ''hi'' ''hiking, Hi'' k"
    by simp
  have after: "\<forall>j. 10 \<le> j \<longrightarrow> \<not> wholeWordAt ''hi'' ''hiking, Hi'' j"
    by (simp add: wholeWordAt_def)
  note c6 = C6_tone_whole_words [OF entry, where ?text = "''hiking, Hi''"]
  have "10 \<le> length ''hiking, Hi'' \<and> (\<forall>j. 10 \<le> j \<longrightarrow> \<not> wholeWordAt ''hi'' ''hiking, Hi'' j) \<longrightarrow>
          scanFrom ''hi'' ''greetings'' ''hiking, Hi'' 10 = drop 10 ''hiking, Hi''"
    by (rule c6 [of 10, THEN conjunct2, THEN conjunct1])
  then have 1: "scanFrom ''hi'' ''greetings'' ''hiking, Hi'' 10 = []"
    using after by simp
  have "(0::nat) \<le> 8 \<and> wholeWordAt ''hi'' ''hiking, Hi'' 8 \<and>
          (\<forall>k. 0 \<le> k \<and> k < 8 \<longrightarrow> \<not> wholeWordAt ''hi'' ''hiking, Hi'' k) \<longrightarrow>
          scanFrom ''hi'' ''greetings'' ''hiking, Hi'' 0 =
            take (8 - 0) (drop 0 ''hiking, Hi'') @ ''greetings'' @
            scanFrom ''hi'' ''greetings'' ''hiking, Hi'' (8 + length ''hi'')"
    by (rule c6 [of 0 8, THEN conjunct2, THEN conjunct2, THEN conjunct1])
  then have 2: "scanFrom ''hi'' ''greetings'' ''hiking, Hi'' 0 = ''hiking, greetings''"
    using occ none 1 by simp
  show ?thesis
    using entry(1) occ 1 2 by blast
qed


section \<open>Properties of the change ratio\<close>









section \<open>Properties of the readability score\<close>








text \<open>
  The analysis request of the transform worker computes another score, ten times the
  number of tokens longer than 3 per sentence: the two disagree on this sentence.
\<close>

lemma performAnalyze_score:
  "map_sum id score (performAnalyze False ''The cat sat on the mat.'') = Inr 0 \<and>
   calculateReadabilityScore ''The cat sat on the mat.'' = 100"
  by code_simp


section \<open>Properties of the keyword extraction\<close>






















text \<open>
  The analysis request of the transform worker keeps the stop words longer than 3.
\<close>

lemma performAnalyze_keywords:
  "map_sum id keywordList (performAnalyze False ''this apple'') = Inr (Some [''this'', ''apple'']) \<and>
   extractKeywords ''this apple'' None = Some [''apple'']"
  by code_simp


end
